theory Spec2Isabelle
  imports Main
begin

section \<open>Data model\<close>

text \<open>
  Modelled from the spec: the enumeration \<^verbatim>\<open>TrafficLightPhase\<close> is declared in the header
  \<^verbatim>\<open>TrafficLight.h\<close>, which is not among the sources; the spec gives it exactly the two
  members \<open>red\<close> and \<open>green\<close>, the two values \<^verbatim>\<open>TrafficLight.cpp\<close> compares with.
\<close>

datatype TrafficLightPhase = red | green

text \<open>
  Modelled from the spec: the member \<^verbatim>\<open>_queue\<close> of \<^verbatim>\<open>MessageQueue<T>\<close> is declared in the
  same missing header. The source uses it through \<^verbatim>\<open>empty\<close>, \<^verbatim>\<open>back\<close>, \<^verbatim>\<open>pop_back\<close>,
  \<^verbatim>\<open>clear\<close> and \<^verbatim>\<open>push_back\<close>, the interface of a standard sequence container; it is a
  list here, the back of the container being the last element. The mutex and the
  condition variable carry no data: a critical section is one atomic step.
\<close>

type_synonym 'a MessageQueue = "'a list"

definition deque_empty :: "'a MessageQueue \<Rightarrow> bool" where
  "deque_empty q = (q = [])"

definition deque_back :: "'a MessageQueue \<Rightarrow> 'a" where
  "deque_back q = last q"

definition deque_pop_back :: "'a MessageQueue \<Rightarrow> 'a MessageQueue" where
  "deque_pop_back q = butlast q"

definition deque_clear :: "'a MessageQueue \<Rightarrow> 'a MessageQueue" where
  "deque_clear q = []"

definition deque_push_back :: "'a MessageQueue \<Rightarrow> 'a \<Rightarrow> 'a MessageQueue" where
  "deque_push_back q x = q @ [x]"

section \<open>MessageQueue\<close>

text \<open>
  \<^verbatim>\<open>MessageQueue<T>::receive\<close>, lines 16 to 25, as one step taken under the lock. The
  wait of line 19 returns only when its predicate \<^verbatim>\<open>!_queue.empty()\<close> holds: on an empty
  container the step yields \<open>None\<close>, the caller stays blocked inside \<^verbatim>\<open>wait\<close> and the
  container is untouched. Otherwise the last message is moved out and popped.
\<close>

definition receive :: "'a MessageQueue \<Rightarrow> ('a \<times> 'a MessageQueue) option" where
  "receive q =
     (if deque_empty q then None
      else (let msg = deque_back q; q' = deque_pop_back q in Some (msg, q')))"

text \<open>
  \<^verbatim>\<open>MessageQueue<T>::send\<close>, lines 38 to 47: under the lock the container is cleared and
  the message pushed. The sleep of line 35 only delays the step; the notification of
  line 47 changes no data (the waiting threads are modelled further down).
\<close>

definition send :: "'a MessageQueue \<Rightarrow> 'a \<Rightarrow> 'a MessageQueue" where
  "send q msg = (let q1 = deque_clear q in deque_push_back q1 msg)"

text \<open>
  Threads reach the container only through \<^verbatim>\<open>send\<close> and \<^verbatim>\<open>receive\<close>, each serialised by
  the mutex, so a run of the queue is a sequence of such calls in the order in which
  they take the lock. A \<open>Receive\<close> that finds the container empty returns nothing (its
  thread keeps waiting). \<open>queue_run\<close> gives the values the receives returned, in order,
  and the final container.
\<close>

datatype 'a queue_call = Send 'a | Receive

fun queue_run :: "'a queue_call list \<Rightarrow> 'a MessageQueue \<Rightarrow> 'a list \<times> 'a MessageQueue" where
  "queue_run [] q = ([], q)"
| "queue_run (Send v # cs) q = queue_run cs (send q v)"
| "queue_run (Receive # cs) q =
     (case receive q of
        None \<Rightarrow> queue_run cs q
      | Some (msg, q') \<Rightarrow> (let (rs, qf) = queue_run cs q' in (msg # rs, qf)))"

fun sent_values :: "'a queue_call list \<Rightarrow> 'a list" where
  "sent_values [] = []"
| "sent_values (Send v # cs) = v # sent_values cs"
| "sent_values (Receive # cs) = sent_values cs"

section \<open>TrafficLight\<close>

text \<open>
  The object's data: \<^verbatim>\<open>_currentPhase\<close>, \<^verbatim>\<open>_messageQueue\<close> and the number of threads held in
  the base class's vector \<^verbatim>\<open>threads\<close> (each one runs \<^verbatim>\<open>cycleThroughPhases\<close>).
\<close>

record TrafficLight =
  currentPhase :: TrafficLightPhase
  messageQueue :: "TrafficLightPhase MessageQueue"
  threads :: nat

text \<open>The constructor, lines 52 to 55; the queue and the thread vector start empty.\<close>

definition TrafficLight_ctor :: TrafficLight where
  "TrafficLight_ctor = \<lparr>currentPhase = red, messageQueue = [], threads = 0\<rparr>"

text \<open>\<^verbatim>\<open>getCurrentPhase\<close>, lines 70 to 73.\<close>

definition getCurrentPhase :: "TrafficLight \<Rightarrow> TrafficLightPhase" where
  "getCurrentPhase light = currentPhase light"

text \<open>\<^verbatim>\<open>simulate\<close>, lines 75 to 80: one more thread running the cycle routine.\<close>

definition simulate :: "TrafficLight \<Rightarrow> TrafficLight" where
  "simulate light = light\<lparr>threads := Suc (threads light)\<rparr>"

text \<open>
  \<^verbatim>\<open>waitForGreen\<close>, lines 57 to 68: an endless loop that calls \<^verbatim>\<open>receive\<close> on the message
  queue and returns once a call yields green. What its calls yield depends on the
  sends of the cycle thread, so the function follows a run of the queue: \<open>Send v\<close> is
  a send by the cycle thread, \<open>Receive\<close> a receive step of the waiting thread (a step
  on the empty queue leaves it blocked in the same call). The result is \<open>None\<close> when
  the run ends with the thread still inside the loop; otherwise the values its
  \<^verbatim>\<open>receive\<close> calls returned, the queue at the moment of return and the part of the
  run that was left. The method touches \<^verbatim>\<open>_messageQueue\<close> only.
\<close>

fun waitForGreen ::
  "TrafficLightPhase queue_call list \<Rightarrow> TrafficLightPhase MessageQueue \<Rightarrow>
     (TrafficLightPhase list \<times> TrafficLightPhase MessageQueue \<times> TrafficLightPhase queue_call list) option" where
  "waitForGreen [] q = None"
| "waitForGreen (Send v # cs) q = waitForGreen cs (send q v)"
| "waitForGreen (Receive # cs) q =
     (case receive q of
        None \<Rightarrow> waitForGreen cs q
      | Some (msg, q') \<Rightarrow>
          if msg = green then Some ([msg], q', cs)
          else (case waitForGreen cs q' of
                  None \<Rightarrow> None
                | Some (rs, qf, rest) \<Rightarrow> Some (msg # rs, qf, rest)))"

text \<open>
  Before \<^verbatim>\<open>simulate\<close> no thread runs the cycle routine, and the calls that can reach the
  object are \<^verbatim>\<open>getCurrentPhase\<close> and the receive steps of threads that entered
  \<^verbatim>\<open>waitForGreen\<close>. \<open>pre_start_run\<close> performs such calls in order and collects what
  the \<^verbatim>\<open>getCurrentPhase\<close> calls returned.
\<close>

datatype pre_start_call = GetCurrentPhase | WaitForGreenReceive

fun pre_start_run ::
  "pre_start_call list \<Rightarrow> TrafficLight \<Rightarrow> TrafficLightPhase list \<times> TrafficLight" where
  "pre_start_run [] light = ([], light)"
| "pre_start_run (GetCurrentPhase # cs) light =
     (let (rs, light') = pre_start_run cs light in (getCurrentPhase light # rs, light'))"
| "pre_start_run (WaitForGreenReceive # cs) light =
     (case receive (messageQueue light) of
        None \<Rightarrow> pre_start_run cs light
      | Some (msg, q') \<Rightarrow> pre_start_run cs (light\<lparr>messageQueue := q'\<rparr>))"

section \<open>The cycle routine\<close>

text \<open>
  \<^verbatim>\<open>cycleThroughPhases\<close>, lines 83 to 125. The routine reads three things from outside the
  repository, taken here as parameters:
  \<^item> \<open>uniform_int\<close>: the call \<^verbatim>\<open>distr(eng)\<close> of a \<^verbatim>\<open>std::uniform_int_distribution<>\<close>
    constructed with bounds \<open>a\<close> and \<open>b\<close>; from the engine's state it gives the number
    drawn and the engine's next state. \<open>eng0\<close> is the engine as seeded in line 92;
  \<^item> \<open>elapsed_ms\<close>: \<^verbatim>\<open>duration_cast<milliseconds>(t - u).count()\<close> on two readings of the
    system clock;
  \<^item> the readings of the clock themselves: \<open>t0\<close> in line 98, and for every iteration
    of the loop a pair, the reading of line 107 and the reading of line 122 (used
    only when the iteration makes a transition).
  The local variables that outlive an iteration are a record. \<^verbatim>\<open>cycleDuration\<close> is a
  \<^verbatim>\<open>double\<close> holding the integer drawn; the comparison of line 108 converts the
  \<^verbatim>\<open>long\<close> to \<^verbatim>\<open>double\<close>, which keeps the order against an integer of this size, so
  both are integers here.
\<close>

record ('eng, 't) cycle_locals =
  eng :: 'eng
  cycleDuration :: int
  lastUpdate :: 't

text \<open>
  One iteration of the loop, lines 103 to 123. The result is the phase handed to
  \<^verbatim>\<open>send\<close> in line 119, if the iteration made a transition, with the locals and the
  object afterwards. \<^verbatim>\<open>std::move\<close> of the enumeration copies it: \<^verbatim>\<open>_currentPhase\<close> keeps its
  value.
\<close>

definition cycle_iteration ::
  "('t \<Rightarrow> 't \<Rightarrow> int) \<Rightarrow> 't \<times> 't \<Rightarrow> ('eng, 't) cycle_locals \<times> TrafficLight \<Rightarrow>
     TrafficLightPhase option \<times> ('eng, 't) cycle_locals \<times> TrafficLight" where
  "cycle_iteration elapsed_ms nows s =
     (let locals = fst s; light = snd s;
          timeSinceLastUpdate = elapsed_ms (fst nows) (lastUpdate locals)
      in if timeSinceLastUpdate \<ge> cycleDuration locals then
           (let light1 =
                  (if currentPhase light = red then light\<lparr>currentPhase := green\<rparr>
                   else if currentPhase light = green then light\<lparr>currentPhase := red\<rparr>
                   else light);
                msg = currentPhase light1;
                light2 = light1\<lparr>messageQueue := send (messageQueue light1) msg\<rparr>;
                locals' = locals\<lparr>lastUpdate := snd nows\<rparr>
            in (Some msg, locals', light2))
         else (None, locals, light))"

text \<open>
  The loop of line 101 never ends; \<open>cycle_loop\<close> runs it for as many iterations as
  there are clock readings and gives the phases published so far, in order, with the
  state reached.
\<close>

fun cycle_loop ::
  "('t \<Rightarrow> 't \<Rightarrow> int) \<Rightarrow> ('t \<times> 't) list \<Rightarrow> ('eng, 't) cycle_locals \<times> TrafficLight \<Rightarrow>
     TrafficLightPhase list \<times> ('eng, 't) cycle_locals \<times> TrafficLight" where
  "cycle_loop elapsed_ms [] s = ([], s)"
| "cycle_loop elapsed_ms (nows # clock) s =
     (let (pub, s') = cycle_iteration elapsed_ms nows s;
          (ps, sf) = cycle_loop elapsed_ms clock s'
      in ((case pub of None \<Rightarrow> [] | Some msg \<Rightarrow> [msg]) @ ps, sf))"

definition cycleThroughPhases ::
  "(int \<Rightarrow> int \<Rightarrow> 'eng \<Rightarrow> int \<times> 'eng) \<Rightarrow> ('t \<Rightarrow> 't \<Rightarrow> int) \<Rightarrow> 'eng \<Rightarrow> 't \<Rightarrow> ('t \<times> 't) list \<Rightarrow>
     TrafficLight \<Rightarrow> TrafficLightPhase list \<times> ('eng, 't) cycle_locals \<times> TrafficLight" where
  "cycleThroughPhases uniform_int elapsed_ms eng0 t0 clock light =
     (let (drawn, eng1) = uniform_int 4000 6000 eng0;
          locals = \<lparr>eng = eng1, cycleDuration = drawn, lastUpdate = t0\<rparr>
      in cycle_loop elapsed_ms clock (locals, light))"

text \<open>
  What the C++ standard promises of \<^verbatim>\<open>uniform_int_distribution(a, b)\<close>: every number it
  produces lies between \<open>a\<close> and \<open>b\<close>, both included.
\<close>

definition uniform_int_contract :: "(int \<Rightarrow> int \<Rightarrow> 'eng \<Rightarrow> int \<times> 'eng) \<Rightarrow> bool" where
  "uniform_int_contract uniform_int =
     (\<forall>a b e. a \<le> b \<longrightarrow> a \<le> fst (uniform_int a b e) \<and> fst (uniform_int a b e) \<le> b)"

text \<open>The other member of the enumeration, and the list that starts with a phase and alternates.\<close>

fun opposite :: "TrafficLightPhase \<Rightarrow> TrafficLightPhase" where
  "opposite red = green"
| "opposite green = red"

fun alternation :: "TrafficLightPhase \<Rightarrow> nat \<Rightarrow> TrafficLightPhase list" where
  "alternation p 0 = []"
| "alternation p (Suc n) = p # alternation (opposite p) n"

section \<open>Receivers and the condition variable\<close>

text \<open>
  The threads inside \<^verbatim>\<open>receive\<close>, for the claims about blocking and waking. Line 19,
  \<^verbatim>\<open>_condition.wait(uLock, pred)\<close>, is by the C++ standard the loop
  \<^verbatim>\<open>while (!pred()) wait(uLock)\<close>: the predicate is evaluated with the mutex held, and
  \<^verbatim>\<open>wait\<close> releases the mutex and blocks in one atomic step, until the thread is notified
  or wakes spuriously and has taken the mutex again. A thread is
  \<^item> \<open>Idle\<close>: outside \<^verbatim>\<open>receive\<close>, having returned nothing yet;
  \<^item> \<open>Ready\<close>: inside \<^verbatim>\<open>receive\<close> and about to take the mutex and evaluate the
    predicate, after the call (line 16) or after a wake-up;
  \<^item> \<open>Waiting\<close>: blocked inside \<^verbatim>\<open>wait\<close>, the mutex released;
  \<^item> \<open>Returned msg\<close>: outside \<^verbatim>\<open>receive\<close>, its last call having returned \<open>msg\<close>.
\<close>

datatype 'a receiver = Idle | Ready | Waiting | Returned 'a

record 'a system =
  queue :: "'a MessageQueue"
  receivers :: "'a receiver list"

text \<open>
  The steps of the system, each atomic because it runs under the mutex or touches one
  thread only:
  \<^item> \<open>Call t\<close>: thread \<open>t\<close>, outside \<^verbatim>\<open>receive\<close>, calls it;
  \<^item> \<open>Step t\<close>: thread \<open>t\<close>, ready, takes the mutex and evaluates the predicate; on an
    empty container it goes (back) to waiting, otherwise it runs lines 22 to 25;
  \<^item> \<open>Spurious t\<close>: the waiting thread \<open>t\<close> wakes up without a notification;
  \<^item> \<open>SendNotify v w\<close>: a thread runs \<^verbatim>\<open>send\<close> with \<open>v\<close>; \<open>w\<close> is the thread that
    \<^verbatim>\<open>notify_one\<close> of line 47 wakes: one of the waiting threads if there is any, none
    only if no thread waits.
  A step that the state does not allow gives \<open>None\<close>.
\<close>

datatype 'a event = Call nat | Step nat | Spurious nat | SendNotify 'a "nat option"

fun notify_one :: "nat option \<Rightarrow> 'a receiver list \<Rightarrow> 'a receiver list option" where
  "notify_one None rs = (if Waiting \<in> set rs then None else Some rs)"
| "notify_one (Some t) rs =
     (if t < length rs \<and> rs ! t = Waiting then Some (rs[t := Ready]) else None)"

fun sys_step :: "'a event \<Rightarrow> 'a system \<Rightarrow> 'a system option" where
  "sys_step (Call t) s =
     (if t < length (receivers s) \<and> receivers s ! t \<noteq> Ready \<and> receivers s ! t \<noteq> Waiting
      then Some (s\<lparr>receivers := (receivers s)[t := Ready]\<rparr>) else None)"
| "sys_step (Step t) s =
     (if t < length (receivers s) \<and> receivers s ! t = Ready
      then (case receive (queue s) of
              None \<Rightarrow> Some (s\<lparr>receivers := (receivers s)[t := Waiting]\<rparr>)
            | Some (msg, q') \<Rightarrow>
                Some (s\<lparr>queue := q', receivers := (receivers s)[t := Returned msg]\<rparr>))
      else None)"
| "sys_step (Spurious t) s =
     (if t < length (receivers s) \<and> receivers s ! t = Waiting
      then Some (s\<lparr>receivers := (receivers s)[t := Ready]\<rparr>) else None)"
| "sys_step (SendNotify v w) s =
     (case notify_one w (receivers s) of
        None \<Rightarrow> None
      | Some rs' \<Rightarrow> Some (s\<lparr>queue := send (queue s) v, receivers := rs'\<rparr>))"

fun sys_run :: "'a event list \<Rightarrow> 'a system \<Rightarrow> 'a system option" where
  "sys_run [] s = Some s"
| "sys_run (e # es) s = (case sys_step e s of None \<Rightarrow> None | Some s' \<Rightarrow> sys_run es s')"

text \<open>The start: an empty queue and \<open>n\<close> threads that have not called \<^verbatim>\<open>receive\<close> yet.\<close>

definition sys_init :: "nat \<Rightarrow> 'a system" where
  "sys_init n = \<lparr>queue = [], receivers = replicate n Idle\<rparr>"

fun is_send :: "'a event \<Rightarrow> bool" where
  "is_send (SendNotify v w) = True"
| "is_send e = False"

fun is_returned :: "'a receiver \<Rightarrow> bool" where
  "is_returned (Returned msg) = True"
| "is_returned r = False"

text \<open>The value of the last send of a run, if it has one.\<close>

fun last_sent :: "'a event list \<Rightarrow> 'a option" where
  "last_sent [] = None"
| "last_sent (e # es) =
     (case last_sent es of
        Some v \<Rightarrow> Some v
      | None \<Rightarrow> (case e of SendNotify v w \<Rightarrow> Some v | _ \<Rightarrow> None))"

text \<open>
  What holds in every state reached from the start by a run \<open>es\<close>: the container is
  empty or holds the value of the last send alone; if it holds a value while a thread
  waits, some thread is ready; and as long as nothing was sent, no thread has returned.
\<close>

definition sys_inv :: "'a event list \<Rightarrow> 'a system \<Rightarrow> bool" where
  "sys_inv es s \<longleftrightarrow>
     (queue s = [] \<or>
        (queue s = [last (queue s)] \<and> last_sent es = Some (last (queue s)))) \<and>
     (queue s \<noteq> [] \<and> Waiting \<in> set (receivers s) \<longrightarrow> Ready \<in> set (receivers s)) \<and>
     (list_all (\<lambda>e. \<not> is_send e) es \<longrightarrow>
        queue s = [] \<and> list_all (\<lambda>r. \<not> is_returned r) (receivers s))"

section \<open>Properties of the queue\<close>

lemma send_singleton: "send q v = [v]"
  by (simp add: send_def deque_clear_def deque_push_back_def)

lemma receive_Nil: "receive [] = None"
  by (simp add: receive_def deque_empty_def)

lemma receive_singleton: "receive [v] = Some (v, [])"
  by (simp add: receive_def deque_empty_def deque_back_def deque_pop_back_def)

lemma receive_Some_iff:
  "receive q = Some (m, q') \<longleftrightarrow> q \<noteq> [] \<and> m = last q \<and> q' = butlast q"
  by (auto simp: receive_def deque_empty_def deque_back_def deque_pop_back_def)

lemma queue_run_length: "length q \<le> 1 \<Longrightarrow> length (snd (queue_run cs q)) \<le> 1"
proof (induction cs q rule: queue_run.induct)
  case (1 q)
  then show ?case by simp
next
  case (2 v cs q)
  then show ?case by (simp add: send_singleton)
next
  case (3 cs q)
  show ?case
  proof (cases "receive q")
    case None
    with 3 show ?thesis by simp
  next
    case (Some p)
    obtain m q' where p: "p = (m, q')" by (cases p)
    from Some p have "q' = butlast q" by (simp add: receive_Some_iff)
    with "3.prems" have "length q' \<le> 1" by simp
    with "3.IH"(2) Some p have "length (snd (queue_run cs q')) \<le> 1" by simp
    with Some p show ?thesis by (simp add: split_beta)
  qed
qed

lemma queue_run_values:
  "set (fst (queue_run cs q)) \<subseteq> set q \<union> set (sent_values cs)"
proof (induction cs q rule: queue_run.induct)
  case (1 q)
  then show ?case by simp
next
  case (2 v cs q)
  then show ?case by (auto simp: send_singleton)
next
  case (3 cs q)
  show ?case
  proof (cases "receive q")
    case None
    with 3 show ?thesis by simp
  next
    case (Some p)
    obtain m q' where p: "p = (m, q')" by (cases p)
    from Some p have q: "q \<noteq> []" "m = last q" "q' = butlast q"
      by (simp_all add: receive_Some_iff)
    then have "m \<in> set q" by simp
    moreover from q have "set q' \<subseteq> set q" by (auto dest: in_set_butlastD)
    moreover from "3.IH"(2) Some p
    have "set (fst (queue_run cs q')) \<subseteq> set q' \<union> set (sent_values cs)" by simp
    ultimately show ?thesis using Some p by (auto simp: split_beta)
  qed
qed

lemma pre_start_run_ctor:
  "pre_start_run cs TrafficLight_ctor = (replicate (count_list cs GetCurrentPhase) red, TrafficLight_ctor)"
proof (induction cs)
  case Nil
  then show ?case by simp
next
  case (Cons c cs)
  then show ?case
    by (cases c) (simp_all add: getCurrentPhase_def TrafficLight_ctor_def receive_Nil)
qed

section \<open>The claims about the queue and the constructor\<close>

text \<open>
  C1. Whatever the queue holds, after \<open>send A\<close> and then \<open>send B\<close> with no receive in between
  the container holds \<open>B\<close> alone and the next \<open>receive\<close> returns \<open>B\<close>, leaving it empty.
  The first send leaves no trace: in every continuation of the run, a receive returns
  \<open>A\<close> only if \<open>A\<close> is \<open>B\<close> or \<open>A\<close> is sent again.
\<close>

theorem send_twice_receive_latest:
  "send (send q A) B = [B] \<and>
   receive (send (send q A) B) = Some (B, []) \<and>
   (A \<noteq> B \<and> A \<notin> set (sent_values cs) \<longrightarrow>
      A \<notin> set (fst (queue_run cs (send (send q A) B))))"
proof -
  have s: "send (send q A) B = [B]" by (simp add: send_singleton)
  have "set (fst (queue_run cs [B])) \<subseteq> set [B] \<union> set (sent_values cs)"
    by (rule queue_run_values)
  then have "A \<noteq> B \<and> A \<notin> set (sent_values cs) \<longrightarrow> A \<notin> set (fst (queue_run cs [B]))"
    by auto
  with s show ?thesis by (simp add: receive_singleton)
qed

theorem send_twice_receive_latest_witness:
  "send (send [green] red) green = [green] \<and>
   receive (send (send [green] red) green) = Some (green, []) \<and>
   red \<noteq> green \<and> red \<notin> set (sent_values [Receive, Send green, Receive, Receive]) \<and>
   red \<notin> set (fst (queue_run [Receive, Send green, Receive, Receive]
                      (send (send [green] red) green))) \<and>
   fst (queue_run [Receive, Send green, Receive, Receive] (send (send [green] red) green))
     = [green, green]"
  using send_twice_receive_latest [of "[green]" red green "[Receive, Send green, Receive, Receive]"]
  by (simp add: send_singleton receive_singleton receive_Nil)

text \<open>
  C4. In every state the queue can reach from its empty start by sends and receives, a
  non-empty container holds one value; \<open>receive\<close> returns that value and leaves the
  container empty, so that a second \<open>receive\<close> with no send in between returns nothing.
\<close>

theorem receive_takes_the_value:
  assumes "q = snd (queue_run cs [])" and "q \<noteq> []"
  shows "q = [last q] \<and> receive q = Some (last q, []) \<and> receive (butlast q) = None"
proof -
  from queue_run_length [of "[]" cs] assms(1) have "length q \<le> 1" by simp
  with assms(2) obtain v where q: "q = [v]" by (cases q) auto
  then show ?thesis by (simp add: receive_singleton receive_Nil)
qed

theorem receive_takes_the_value_witness:
  "[red] = snd (queue_run [Send green, Receive, Send green, Send red] []) \<and>
   [red] \<noteq> [] \<and> receive [red] = Some (red, []) \<and> receive (butlast [red]) = None"
  using receive_takes_the_value [of "[red]" "[Send green, Receive, Send green, Send red]"]
  by (simp add: send_singleton receive_singleton receive_Nil)

text \<open>
  C5. The container holds at most one value at every instant: after \<open>send v\<close> it is
  exactly \<open>[v]\<close>, whatever it held; between the \<open>clear\<close> and the \<open>push_back\<close> of a send it
  is empty; a receive on a container of at most one value leaves at most one; and so
  every run from the empty queue ends with at most one value.
\<close>

theorem slot_holds_at_most_one:
  "send q v = [v] \<and>
   length (deque_clear q) \<le> 1 \<and>
   (length q \<le> 1 \<and> receive q = Some (m, q') \<longrightarrow> length q' \<le> 1) \<and>
   length (snd (queue_run cs [])) \<le> 1"
proof -
  have "length (snd (queue_run cs [])) \<le> 1"
    by (rule queue_run_length) simp
  then show ?thesis
    by (auto simp: send_singleton deque_clear_def receive_Some_iff)
qed

theorem slot_holds_at_most_one_witness:
  "send [red] green = [green] \<and> length (deque_clear [red]) \<le> 1 \<and>
   length [green] \<le> 1 \<and> receive [green] = Some (green, []) \<and> length ([] :: TrafficLightPhase list) \<le> 1 \<and>
   length (snd (queue_run [Send red, Send green, Receive, Send red] [])) \<le> 1"
  using slot_holds_at_most_one [of "[green]" green green "[]" "[Send red, Send green, Receive, Send red]"]
    slot_holds_at_most_one [of "[red]" green]
  by (simp add: receive_singleton send_singleton deque_clear_def)

text \<open>
  C8. A freshly constructed traffic light has current phase red and no thread running
  the cycle routine, and whatever calls of \<open>getCurrentPhase\<close> and receive steps of
  \<open>waitForGreen\<close> are made on it before \<open>simulate\<close>, every \<open>getCurrentPhase\<close> returns red
  and the object stays as constructed.
\<close>

theorem initial_phase_red:
  "currentPhase TrafficLight_ctor = red \<and>
   getCurrentPhase TrafficLight_ctor = red \<and>
   threads TrafficLight_ctor = 0 \<and>
   fst (pre_start_run cs TrafficLight_ctor) = replicate (count_list cs GetCurrentPhase) red \<and>
   snd (pre_start_run cs TrafficLight_ctor) = TrafficLight_ctor \<and>
   getCurrentPhase (snd (pre_start_run cs TrafficLight_ctor)) = red"
  by (simp add: pre_start_run_ctor) (simp add: getCurrentPhase_def TrafficLight_ctor_def)

section \<open>Properties of the cycle routine\<close>

lemma cycle_iteration_cases:
  "cycle_iteration el nows (locals, light) =
     (if cycleDuration locals \<le> el (fst nows) (lastUpdate locals)
      then (Some (opposite (currentPhase light)), locals\<lparr>lastUpdate := snd nows\<rparr>,
            light\<lparr>currentPhase := opposite (currentPhase light),
                  messageQueue := [opposite (currentPhase light)]\<rparr>)
      else (None, locals, light))"
  by (cases "currentPhase light") (simp_all add: cycle_iteration_def Let_def send_singleton)

lemma cycle_loop_published:
  "\<exists>n. fst (cycle_loop el clock (locals, light)) = alternation (opposite (currentPhase light)) n"
proof (induction clock arbitrary: locals light)
  case Nil
  have "alternation (opposite (currentPhase light)) 0 = []" by simp
  then show ?case by (metis cycle_loop.simps(1) fst_conv)
next
  case (Cons nows clock)
  show ?case
  proof (cases "cycleDuration locals \<le> el (fst nows) (lastUpdate locals)")
    case True
    let ?l = "locals\<lparr>lastUpdate := snd nows\<rparr>"
    let ?t = "light\<lparr>currentPhase := opposite (currentPhase light),
                  messageQueue := [opposite (currentPhase light)]\<rparr>"
    from Cons.IH [of ?l ?t] obtain n where
      n: "fst (cycle_loop el clock (?l, ?t)) = alternation (opposite (currentPhase ?t)) n" ..
    have "fst (cycle_loop el (nows # clock) (locals, light)) =
            opposite (currentPhase light) # fst (cycle_loop el clock (?l, ?t))"
      using True by (simp add: cycle_iteration_cases split_beta)
    with n have "fst (cycle_loop el (nows # clock) (locals, light)) =
            alternation (opposite (currentPhase light)) (Suc n)" by simp
    then show ?thesis ..
  next
    case False
    from Cons.IH [of locals light] obtain n where
      n: "fst (cycle_loop el clock (locals, light)) = alternation (opposite (currentPhase light)) n" ..
    have "fst (cycle_loop el (nows # clock) (locals, light)) = fst (cycle_loop el clock (locals, light))"
      using False by (simp add: cycle_iteration_cases split_beta)
    with n show ?thesis by auto
  qed
qed

lemma length_alternation: "length (alternation p n) = n"
  by (induction n arbitrary: p) simp_all

lemma opposite_opposite: "opposite (opposite p) = p"
  by (cases p) simp_all

lemma nth_alternation:
  "i < n \<Longrightarrow> alternation p n ! i = (if even i then p else opposite p)"
proof (induction n arbitrary: p i)
  case 0
  then show ?case by simp
next
  case (Suc n)
  show ?case
  proof (cases i)
    case 0
    then show ?thesis by simp
  next
    case (Suc j)
    with Suc.prems have "j < n" by simp
    from Suc.IH [OF this, of "opposite p"] Suc show ?thesis
      by (simp add: opposite_opposite)
  qed
qed

lemma alternation_map:
  "alternation p n = map (\<lambda>i. if even i then p else opposite p) [0..<n]"
  by (rule nth_equalityI) (simp_all add: length_alternation nth_alternation)


lemma cycle_loop_frame:
  "cycleDuration (fst (snd (cycle_loop el clock (locals, light)))) = cycleDuration locals \<and>
   eng (fst (snd (cycle_loop el clock (locals, light)))) = eng locals"
proof (induction clock arbitrary: locals light)
  case Nil
  then show ?case by simp
next
  case (Cons nows clock)
  show ?case
  proof (cases "cycleDuration locals \<le> el (fst nows) (lastUpdate locals)")
    case True
    with Cons.IH [of "locals\<lparr>lastUpdate := snd nows\<rparr>"] show ?thesis
      by (simp add: cycle_iteration_cases split_beta)
  next
    case False
    with Cons.IH [of locals light] show ?thesis
      by (simp add: cycle_iteration_cases split_beta)
  qed
qed

lemma cycle_loop_current:
  "currentPhase (snd (snd (cycle_loop el clock (locals, light)))) =
     (if fst (cycle_loop el clock (locals, light)) = [] then currentPhase light
      else last (fst (cycle_loop el clock (locals, light))))"
proof (induction clock arbitrary: locals light)
  case Nil
  then show ?case by simp
next
  case (Cons nows clock)
  show ?case
  proof (cases "cycleDuration locals \<le> el (fst nows) (lastUpdate locals)")
    case True
    let ?l = "locals\<lparr>lastUpdate := snd nows\<rparr>"
    let ?t = "light\<lparr>currentPhase := opposite (currentPhase light),
                  messageQueue := [opposite (currentPhase light)]\<rparr>"
    have "cycle_loop el (nows # clock) (locals, light) =
            (opposite (currentPhase light) # fst (cycle_loop el clock (?l, ?t)),
             snd (cycle_loop el clock (?l, ?t)))"
      using True by (simp add: cycle_iteration_cases split_beta)
    with Cons.IH [of ?l ?t] show ?thesis by simp
  next
    case False
    then have "cycle_loop el (nows # clock) (locals, light) = cycle_loop el clock (locals, light)"
      by (simp add: cycle_iteration_cases split_beta)
    with Cons.IH [of locals light] show ?thesis by simp
  qed
qed


section \<open>The claims about the cycle routine\<close>

text \<open>
  C2. Started on a traffic light whose phase is red, the cycle routine publishes, after
  any number of loop iterations, a list of phases that is green, red, green, red, ...
  for its whole length: the first published phase is green and no two consecutive
  published phases are equal.
\<close>

theorem published_phases_alternate:
  assumes "currentPhase light = red"
  shows "fst (cycleThroughPhases uid el eng0 t0 clock light) =
           map (\<lambda>i. if even i then green else red)
             [0..<length (fst (cycleThroughPhases uid el eng0 t0 clock light))] \<and>
         (\<forall>i. Suc i < length (fst (cycleThroughPhases uid el eng0 t0 clock light)) \<longrightarrow>
            fst (cycleThroughPhases uid el eng0 t0 clock light) ! i \<noteq>
            fst (cycleThroughPhases uid el eng0 t0 clock light) ! Suc i) \<and>
         (fst (cycleThroughPhases uid el eng0 t0 clock light) \<noteq> [] \<longrightarrow>
            hd (fst (cycleThroughPhases uid el eng0 t0 clock light)) = green)"
proof -
  define ps where "ps = fst (cycleThroughPhases uid el eng0 t0 clock light)"
  define locals where
    "locals = \<lparr>eng = snd (uid 4000 6000 eng0), cycleDuration = fst (uid 4000 6000 eng0),
                lastUpdate = t0\<rparr>"
  have "ps = fst (cycle_loop el clock (locals, light))"
    by (simp add: ps_def locals_def cycleThroughPhases_def split_beta)
  with cycle_loop_published [of el clock locals light] assms
  obtain n where "ps = alternation green n" by auto
  then have n: "length ps = n" and ps: "ps = map (\<lambda>i. if even i then green else red) [0..<n]"
    by (simp_all add: length_alternation alternation_map)
  from ps n have 1: "ps = map (\<lambda>i. if even i then green else red) [0..<length ps]" by simp
  have 2: "ps ! i \<noteq> ps ! Suc i" if "Suc i < length ps" for i
  proof -
    from that n have "i < n" "Suc i < n" by simp_all
    with ps show ?thesis by simp
  qed
  have 3: "hd ps = green" if "ps \<noteq> []"
  proof -
    from that n have "0 < n" by auto
    with ps have "ps ! 0 = green" by simp
    with that show ?thesis by (simp add: hd_conv_nth)
  qed
  from 1 2 3 show ?thesis unfolding ps_def by blast
qed

theorem published_phases_alternate_witness:
  "currentPhase TrafficLight_ctor = red \<and>
   fst (cycleThroughPhases (\<lambda>a b e. (a + e mod (b - a + 1), e + 1)) (\<lambda>t u. t - u) (7::int) (0::int)
     [(3000, 3001), (4006, 4008), (4009, 4010), (8100, 8200), (15000, 15001), (15002, 15003)]
     TrafficLight_ctor) = [green, red, green] \<and>
   [green, red, green] = map (\<lambda>i. if even i then green else red) [0..<length [green, red, green]]"
  using published_phases_alternate [of TrafficLight_ctor "\<lambda>a b e. (a + e mod (b - a + 1), e + 1)"
     "\<lambda>t u. t - u" "7::int" "0::int"
     "[(3000, 3001), (4006, 4008), (4009, 4010), (8100, 8200), (15000, 15001), (15002, 15003)]"]
  by (simp add: cycleThroughPhases_def cycle_iteration_cases TrafficLight_ctor_def upt_rec)

text \<open>
  C10. An iteration of the loop that makes a transition first flips the stored current
  phase and then hands that new phase to \<open>send\<close>: the published value is the current
  phase after the flip, it is what \<open>getCurrentPhase\<close> returns and what the queue then
  holds. So after every run with a transition the last published phase is the current
  phase.
\<close>

theorem published_is_current_phase:
  "(cycle_iteration el nows (locals, light) = (Some msg, locals', light') \<longrightarrow>
      currentPhase light' = opposite (currentPhase light) \<and>
      msg = currentPhase light' \<and> getCurrentPhase light' = msg \<and>
      messageQueue light' = [msg]) \<and>
   (fst (cycle_loop el clock (locals, light)) \<noteq> [] \<longrightarrow>
      last (fst (cycle_loop el clock (locals, light))) =
        getCurrentPhase (snd (snd (cycle_loop el clock (locals, light)))))"
  using cycle_loop_current [of el clock locals light]
  by (auto simp: cycle_iteration_cases getCurrentPhase_def split: if_splits)

theorem published_is_current_phase_witness:
  "cycle_iteration (\<lambda>t u. t - u) (4009::int, 4010)
      (\<lparr>eng = (8::int), cycleDuration = 4007, lastUpdate = 0\<rparr>, TrafficLight_ctor) =
     (Some green, \<lparr>eng = 8, cycleDuration = 4007, lastUpdate = 4010\<rparr>,
      \<lparr>currentPhase = green, messageQueue = [green], threads = 0\<rparr>) \<and>
   currentPhase TrafficLight_ctor = red \<and>
   fst (cycle_loop (\<lambda>t u. t - u) [(4009::int, 4010), (8100, 8200)]
      (\<lparr>eng = (8::int), cycleDuration = 4007, lastUpdate = 0\<rparr>, TrafficLight_ctor)) = [green, red] \<and>
   getCurrentPhase (snd (snd (cycle_loop (\<lambda>t u. t - u) [(4009::int, 4010), (8100, 8200)]
      (\<lparr>eng = (8::int), cycleDuration = 4007, lastUpdate = 0\<rparr>, TrafficLight_ctor)))) = red"
  using published_is_current_phase [of "\<lambda>t u. t - u" "(4009::int, 4010)"
      "\<lparr>eng = (8::int), cycleDuration = 4007, lastUpdate = 0\<rparr>" TrafficLight_ctor green
      "\<lparr>eng = 8, cycleDuration = 4007, lastUpdate = 4010\<rparr>"
      "\<lparr>currentPhase = green, messageQueue = [green], threads = 0\<rparr>"
      "[(4009::int, 4010), (8100, 8200)]"]
  by (simp add: cycle_iteration_cases TrafficLight_ctor_def getCurrentPhase_def)

text \<open>
  C6. The cycle routine draws its cycle duration once, before the loop: after any number
  of iterations the duration is the number drawn first from the seeded engine and the
  engine has advanced by that one draw only. No iteration changes the duration or
  touches the engine, and an iteration makes a transition exactly when the elapsed
  time has reached that duration.
\<close>

theorem cycle_duration_drawn_once:
  "cycleDuration (fst (snd (cycleThroughPhases uid el eng0 t0 clock light))) = fst (uid 4000 6000 eng0) \<and>
   eng (fst (snd (cycleThroughPhases uid el eng0 t0 clock light))) = snd (uid 4000 6000 eng0) \<and>
   cycleDuration (fst (snd (cycle_iteration el nows (locals, light)))) = cycleDuration locals \<and>
   eng (fst (snd (cycle_iteration el nows (locals, light)))) = eng locals \<and>
   ((fst (cycle_iteration el nows (locals, light)) \<noteq> None) =
      (cycleDuration locals \<le> el (fst nows) (lastUpdate locals)))"
  by (simp add: cycleThroughPhases_def split_beta cycle_loop_frame cycle_iteration_cases)

text \<open>
  C7. With a distribution that keeps the promise of the standard library, the cycle
  duration of the routine lies between 4000 and 6000 milliseconds, both included,
  after any number of iterations.
\<close>

theorem cycle_duration_in_range:
  assumes "uniform_int_contract uid"
  shows "4000 \<le> cycleDuration (fst (snd (cycleThroughPhases uid el eng0 t0 clock light))) \<and>
         cycleDuration (fst (snd (cycleThroughPhases uid el eng0 t0 clock light))) \<le> 6000"
proof -
  have "cycleDuration (fst (snd (cycleThroughPhases uid el eng0 t0 clock light))) =
          fst (uid 4000 6000 eng0)"
    by (simp add: cycleThroughPhases_def split_beta cycle_loop_frame)
  moreover from assms have "4000 \<le> fst (uid 4000 6000 eng0) \<and> fst (uid 4000 6000 eng0) \<le> 6000"
    unfolding uniform_int_contract_def by simp
  ultimately show ?thesis by simp
qed

theorem cycle_duration_in_range_witness:
  "cycleDuration (fst (snd (cycleThroughPhases (\<lambda>a b e. (a + e mod (b - a + 1), e + 1))
     (\<lambda>t u. t - u) (7::int) (0::int) [(3000, 3001), (4009, 4010)] TrafficLight_ctor))) = 4007 \<and>
   (4000::int) \<le> 4007 \<and> (4007::int) \<le> 6000"
proof -
  have c: "uniform_int_contract (\<lambda>a b e. (a + e mod (b - a + 1), e + (1::int)))"
    unfolding uniform_int_contract_def
  proof (intro allI impI)
    fix a b e :: int
    assume "a \<le> b"
    then have "0 < b - a + 1" by simp
    then have "0 \<le> e mod (b - a + 1)" "e mod (b - a + 1) < b - a + 1"
      by (rule pos_mod_sign, rule pos_mod_bound)
    then show "a \<le> fst (a + e mod (b - a + 1), e + 1) \<and> fst (a + e mod (b - a + 1), e + 1) \<le> b"
      by simp
  qed
  show ?thesis
    using cycle_duration_in_range [OF c, of "\<lambda>t u. t - u" "7::int" "0::int"
      "[(3000, 3001), (4009, 4010)]" TrafficLight_ctor]
    by (simp add: cycleThroughPhases_def cycle_iteration_cases TrafficLight_ctor_def)
qed

section \<open>Properties of waitForGreen\<close>

lemma queue_run_append:
  "queue_run (cs @ ds) q =
     (fst (queue_run cs q) @ fst (queue_run ds (snd (queue_run cs q))),
      snd (queue_run ds (snd (queue_run cs q))))"
proof (induction cs q rule: queue_run.induct)
  case (1 q)
  then show ?case by simp
next
  case (2 v cs q)
  then show ?case by simp
next
  case (3 cs q)
  show ?case
  proof (cases "receive q")
    case None
    with 3 show ?thesis by simp
  next
    case (Some p)
    obtain m q' where p: "p = (m, q')" by (cases p)
    with "3.IH"(2) Some show ?thesis by (simp add: split_beta)
  qed
qed

lemma waitForGreen_None:
  "waitForGreen cs q = None \<longleftrightarrow> green \<notin> set (fst (queue_run cs q))"
proof (induction cs q rule: waitForGreen.induct)
  case (1 q)
  then show ?case by simp
next
  case (2 v cs q)
  then show ?case by simp
next
  case (3 cs q)
  show ?case
  proof (cases "receive q")
    case None
    with 3 show ?thesis by simp
  next
    case (Some p)
    obtain m q' where p: "p = (m, q')" by (cases p)
    show ?thesis
    proof (cases "m = green")
      case True
      with Some p show ?thesis by (simp add: split_beta)
    next
      case False
      with "3.IH"(2) [OF Some p [symmetric]] Some p show ?thesis
        by (auto simp: split_beta split: option.splits)
    qed
  qed
qed

lemma waitForGreen_Some:
  "waitForGreen cs q = Some (rs, qf, rest) \<Longrightarrow>
     \<exists>pre ns. cs = pre @ Receive # rest \<and> queue_run (pre @ [Receive]) q = (rs, qf) \<and>
       rs = ns @ [green] \<and> green \<notin> set ns"
proof (induction cs q arbitrary: rs rule: waitForGreen.induct)
  case (1 q)
  then show ?case by simp
next
  case (2 v cs q)
  then have "waitForGreen cs (send q v) = Some (rs, qf, rest)" by simp
  from "2.IH" [OF this] obtain pre ns where
    "cs = pre @ Receive # rest" "queue_run (pre @ [Receive]) (send q v) = (rs, qf)"
    "rs = ns @ [green]" "green \<notin> set ns" by blast
  then have "Send v # cs = (Send v # pre) @ Receive # rest \<and>
     queue_run ((Send v # pre) @ [Receive]) q = (rs, qf) \<and> rs = ns @ [green] \<and> green \<notin> set ns"
    by simp
  then show ?case by blast
next
  case (3 cs q)
  show ?case
  proof (cases "receive q")
    case None
    with "3.prems" have "waitForGreen cs q = Some (rs, qf, rest)" by simp
    from "3.IH"(1) [OF None this] obtain pre ns where
      "cs = pre @ Receive # rest" "queue_run (pre @ [Receive]) q = (rs, qf)"
      "rs = ns @ [green]" "green \<notin> set ns" by blast
    with None have "Receive # cs = (Receive # pre) @ Receive # rest \<and>
       queue_run ((Receive # pre) @ [Receive]) q = (rs, qf) \<and> rs = ns @ [green] \<and> green \<notin> set ns"
      by simp
    then show ?thesis by blast
  next
    case (Some p)
    obtain m q' where p: "p = (m, q')" by (cases p)
    show ?thesis
    proof (cases "m = green")
      case True
      with "3.prems" Some p have "rs = [green]" "qf = q'" "rest = cs" by simp_all
      with Some p True have "Receive # cs = [] @ Receive # rest \<and>
         queue_run ([] @ [Receive]) q = (rs, qf) \<and> rs = [] @ [green] \<and> green \<notin> set []"
        by simp
      then show ?thesis by blast
    next
      case False
      with "3.prems" Some p obtain rs' where
        w: "waitForGreen cs q' = Some (rs', qf, rest)" and rs: "rs = m # rs'"
        by (auto split: option.splits)
      from "3.IH"(2) [OF Some p [symmetric] False w] obtain pre ns where
        "cs = pre @ Receive # rest" "queue_run (pre @ [Receive]) q' = (rs', qf)"
        "rs' = ns @ [green]" "green \<notin> set ns" by blast
      with Some p rs False have "Receive # cs = (Receive # pre) @ Receive # rest \<and>
         queue_run ((Receive # pre) @ [Receive]) q = (rs, qf) \<and> rs = (m # ns) @ [green] \<and>
         green \<notin> set (m # ns)"
        by simp
      then show ?thesis by blast
    qed
  qed
qed

section \<open>The claim about waitForGreen\<close>

text \<open>
  C3. \<open>waitForGreen\<close> follows the values its \<open>receive\<close> calls yield in a run of the queue:
  it is still in its loop at the end of the run exactly when none of them is green, and
  when it returns it has consumed the received values up to and including the first
  green (all before it discarded), having stopped right at the receive step that
  yielded it, with the rest of the run untouched.
\<close>

theorem waitForGreen_returns_at_first_green:
  "(waitForGreen cs q = None \<longleftrightarrow> green \<notin> set (fst (queue_run cs q))) \<and>
   (waitForGreen cs q = Some (rs, qf, rest) \<longrightarrow>
      rs = takeWhile (\<lambda>msg. msg \<noteq> green) (fst (queue_run cs q)) @ [green] \<and>
      (\<exists>pre. cs = pre @ Receive # rest \<and> queue_run (pre @ [Receive]) q = (rs, qf)))"
proof -
  have "rs = takeWhile (\<lambda>msg. msg \<noteq> green) (fst (queue_run cs q)) @ [green] \<and>
      (\<exists>pre. cs = pre @ Receive # rest \<and> queue_run (pre @ [Receive]) q = (rs, qf))"
    if w: "waitForGreen cs q = Some (rs, qf, rest)"
  proof -
    from waitForGreen_Some [OF w] obtain pre ns where
      cs: "cs = pre @ Receive # rest" and r: "queue_run (pre @ [Receive]) q = (rs, qf)"
      and rs: "rs = ns @ [green]" and ns: "green \<notin> set ns" by blast
    from cs have "cs = (pre @ [Receive]) @ rest" by simp
    then have "fst (queue_run cs q) = rs @ fst (queue_run rest qf)"
      using r by (simp only: queue_run_append fst_conv snd_conv)
    with rs have "fst (queue_run cs q) = ns @ green # fst (queue_run rest qf)" by simp
    moreover from ns
    have "takeWhile (\<lambda>msg. msg \<noteq> green) (ns @ green # fst (queue_run rest qf)) = ns"
      by (induction ns) auto
    ultimately have "takeWhile (\<lambda>msg. msg \<noteq> green) (fst (queue_run cs q)) = ns"
      by simp
    with rs cs r show ?thesis by blast
  qed
  with waitForGreen_None [of cs q] show ?thesis by blast
qed

theorem waitForGreen_returns_at_first_green_witness:
  "waitForGreen [Receive, Send red, Receive, Receive, Send green, Send red, Receive,
                 Send green, Receive, Send red] [] = Some ([red, red, green], [], [Send red]) \<and>
   fst (queue_run [Receive, Send red, Receive, Receive, Send green, Send red, Receive,
                 Send green, Receive, Send red] []) = [red, red, green] \<and>
   [red, red, green] = takeWhile (\<lambda>msg. msg \<noteq> green) [red, red, green] @ [green] \<and>
   waitForGreen [Receive, Send red, Receive, Send red] [] = None \<and>
   green \<notin> set (fst (queue_run [Receive, Send red, Receive, Send red] []))"
  using waitForGreen_returns_at_first_green [of "[Receive, Send red, Receive, Receive, Send green,
      Send red, Receive, Send green, Receive, Send red]" "[]" "[red, red, green]" "[]" "[Send red]"]
    waitForGreen_returns_at_first_green [of "[Receive, Send red, Receive, Send red]" "[]"]
  by (simp add: send_singleton receive_singleton receive_Nil)

section \<open>Properties of the receivers\<close>

lemma sys_run_snoc:
  "sys_run (es @ [e]) s = (case sys_run es s of None \<Rightarrow> None | Some s' \<Rightarrow> sys_step e s')"
  by (induction es arbitrary: s) (simp_all split: option.splits)

lemma last_sent_snoc:
  "last_sent (es @ [e]) = (case e of SendNotify v w \<Rightarrow> Some v | _ \<Rightarrow> last_sent es)"
  by (induction es) (simp_all split: option.splits event.splits)

lemma list_all_update:
  "list_all P rs \<Longrightarrow> P x \<Longrightarrow> list_all P (rs[t := x])"
  by (auto simp: list_all_iff dest: set_update_subset_insert [THEN subsetD])

lemma sys_inv_step:
  assumes "sys_inv es s" and "sys_step e s = Some s'"
  shows "sys_inv (es @ [e]) s'"
proof (cases e)
  case (Call t)
  with assms(2) have t: "t < length (receivers s)"
    and s': "s' = s\<lparr>receivers := (receivers s)[t := Ready]\<rparr>"
    by (simp_all split: if_splits)
  from t have "Ready \<in> set ((receivers s)[t := Ready])" by (rule set_update_memI)
  with assms(1) s' Call show ?thesis
    by (simp add: sys_inv_def last_sent_snoc list_all_update)
next
  case (Step t)
  with assms(2) have t: "t < length (receivers s)" "receivers s ! t = Ready"
    by (simp_all split: if_splits)
  show ?thesis
  proof (cases "queue s = []")
    case True
    with assms(2) Step t have "s' = s\<lparr>receivers := (receivers s)[t := Waiting]\<rparr>"
      by (simp add: receive_Nil)
    with assms(1) True Step show ?thesis
      by (simp add: sys_inv_def last_sent_snoc list_all_update)
  next
    case False
    with assms(1) have "queue s = [last (queue s)]" "last_sent es = Some (last (queue s))"
      by (simp_all add: sys_inv_def)
    then obtain v where v: "queue s = [v]" "last_sent es = Some v"
      by blast
    with assms(2) Step t have s': "s' = s\<lparr>queue := [], receivers := (receivers s)[t := Returned v]\<rparr>"
      by (simp add: receive_singleton)
    from assms(1) False have "\<not> list_all (\<lambda>e. \<not> is_send e) es"
      by (auto simp: sys_inv_def)
    with s' Step show ?thesis
      by (simp add: sys_inv_def last_sent_snoc)
  qed
next
  case (Spurious t)
  with assms(2) have t: "t < length (receivers s)"
    and s': "s' = s\<lparr>receivers := (receivers s)[t := Ready]\<rparr>"
    by (simp_all split: if_splits)
  from t have "Ready \<in> set ((receivers s)[t := Ready])" by (rule set_update_memI)
  with assms(1) s' Spurious show ?thesis
    by (simp add: sys_inv_def last_sent_snoc list_all_update)
next
  case (SendNotify v w)
  with assms(2) obtain rs' where n: "notify_one w (receivers s) = Some rs'"
    and s': "s' = s\<lparr>queue := [v], receivers := rs'\<rparr>"
    by (auto simp: send_singleton split: option.splits)
  have "Waiting \<in> set rs' \<longrightarrow> Ready \<in> set rs'"
  proof (cases w)
    case None
    with n show ?thesis by (simp split: if_splits)
  next
    case (Some t)
    with n have "t < length (receivers s)" "rs' = (receivers s)[t := Ready]"
      by (simp_all split: if_splits)
    then show ?thesis by (simp add: set_update_memI)
  qed
  with s' SendNotify show ?thesis
    by (simp add: sys_inv_def last_sent_snoc)
qed

lemma sys_inv_init: "sys_inv [] (sys_init n)"
  by (simp add: sys_inv_def sys_init_def list_all_iff)

lemma sys_inv_run: "sys_run es (sys_init n) = Some s \<Longrightarrow> sys_inv es s"
proof (induction es arbitrary: s rule: rev_induct)
  case Nil
  then have "s = sys_init n" by simp
  then show ?case by (simp add: sys_inv_init)
next
  case (snoc e es)
  from snoc.prems obtain s1 where s1: "sys_run es (sys_init n) = Some s1" "sys_step e s1 = Some s"
    by (auto simp: sys_run_snoc split: option.splits)
  from snoc.IH [OF s1(1)] s1(2) show ?case by (rule sys_inv_step)
qed

lemma ready_can_step:
  assumes "Ready \<in> set (receivers s)" and "queue s \<noteq> []"
  shows "\<exists>t s'. sys_step (Step t) s = Some s' \<and> receivers s' ! t = Returned (last (queue s)) \<and>
           queue s' = butlast (queue s)"
proof -
  from assms(1) obtain t where t: "t < length (receivers s)" "receivers s ! t = Ready"
    by (auto simp: in_set_conv_nth)
  from assms(2) have "receive (queue s) = Some (last (queue s), butlast (queue s))"
    by (simp add: receive_Some_iff)
  with t have "sys_step (Step t) s =
      Some (s\<lparr>queue := butlast (queue s), receivers := (receivers s)[t := Returned (last (queue s))]\<rparr>)"
    by simp
  moreover from t(1)
  have "receivers (s\<lparr>queue := butlast (queue s),
            receivers := (receivers s)[t := Returned (last (queue s))]\<rparr>) ! t =
          Returned (last (queue s))"
    by simp
  moreover
  have "queue (s\<lparr>queue := butlast (queue s),
            receivers := (receivers s)[t := Returned (last (queue s))]\<rparr>) = butlast (queue s)"
    by simp
  ultimately show ?thesis by blast
qed

lemma sys_run_append:
  "sys_run (es @ es') s = (case sys_run es s of None \<Rightarrow> None | Some s' \<Rightarrow> sys_run es' s')"
  by (induction es arbitrary: s) (simp_all split: option.splits)

lemma sys_step_length:
  "sys_step e s = Some s' \<Longrightarrow> length (receivers s') = length (receivers s)"
proof (cases e)
  case (SendNotify v w)
  assume "sys_step e s = Some s'"
  with SendNotify show ?thesis
    by (cases w) (auto split: if_splits option.splits)
qed (auto split: if_splits option.splits)

lemma sys_run_length:
  "sys_run es s = Some s' \<Longrightarrow> length (receivers s') = length (receivers s)"
proof (induction es arbitrary: s)
  case Nil
  then show ?case by simp
next
  case (Cons e es)
  from Cons.prems obtain s1 where s1: "sys_step e s = Some s1" "sys_run es s1 = Some s'"
    by (auto split: option.splits)
  from Cons.IH [OF s1(2)] sys_step_length [OF s1(1)] show ?case by simp
qed

text \<open>A thread inside \<open>receive\<close> stays inside as long as the container stays empty.\<close>

lemma blocked_step:
  assumes "sys_step e s = Some s'" and "\<not> is_send e" and "queue s = []"
    and "t < length (receivers s)"
    and "receivers s ! t = Waiting \<or> receivers s ! t = Ready"
  shows "queue s' = [] \<and> (receivers s' ! t = Waiting \<or> receivers s' ! t = Ready)"
proof (cases e)
  case (Call u)
  with assms(1) have u: "receivers s ! u \<noteq> Ready" "receivers s ! u \<noteq> Waiting"
    and s': "s' = s\<lparr>receivers := (receivers s)[u := Ready]\<rparr>"
    by (simp_all split: if_splits)
  from u assms(5) have "u \<noteq> t" by auto
  with s' assms(3,5) show ?thesis by simp
next
  case (Step u)
  with assms(1,3) have s': "s' = s\<lparr>receivers := (receivers s)[u := Waiting]\<rparr>"
    by (simp add: receive_Nil split: if_splits)
  show ?thesis
  proof (cases "u = t")
    case True
    with s' assms(3,4) show ?thesis by simp
  next
    case False
    with s' assms(3,5) show ?thesis by simp
  qed
next
  case (Spurious u)
  with assms(1) have s': "s' = s\<lparr>receivers := (receivers s)[u := Ready]\<rparr>"
    by (simp split: if_splits)
  show ?thesis
  proof (cases "u = t")
    case True
    with s' assms(3,4) show ?thesis by simp
  next
    case False
    with s' assms(3,5) show ?thesis by simp
  qed
next
  case (SendNotify v w)
  with assms(2) show ?thesis by simp
qed

lemma blocked_run:
  assumes "sys_run es s = Some s'" and "list_all (\<lambda>e. \<not> is_send e) es" and "queue s = []"
    and "t < length (receivers s)"
    and "receivers s ! t = Waiting \<or> receivers s ! t = Ready"
  shows "queue s' = [] \<and> (receivers s' ! t = Waiting \<or> receivers s' ! t = Ready)"
  using assms
proof (induction es arbitrary: s)
  case Nil
  then show ?case by simp
next
  case (Cons e es)
  from Cons.prems(1) obtain s1 where s1: "sys_step e s = Some s1" "sys_run es s1 = Some s'"
    by (auto split: option.splits)
  from Cons.prems(2) have e: "\<not> is_send e" and es: "list_all (\<lambda>e. \<not> is_send e) es"
    by simp_all
  from blocked_step [OF s1(1) e Cons.prems(3,4,5)]
  have 1: "queue s1 = []" "receivers s1 ! t = Waiting \<or> receivers s1 ! t = Ready" by simp_all
  from sys_step_length [OF s1(1)] Cons.prems(4) have 2: "t < length (receivers s1)" by simp
  from Cons.IH [OF s1(2) es 1(1) 2 1(2)] show ?case .
qed

text \<open>The thread that a send wakes returns the value sent at its next step.\<close>

lemma woken_returns:
  assumes "t < length (receivers s)" and "receivers s ! t = Waiting"
  shows "sys_run [SendNotify v (Some t), Step t] s =
           Some (s\<lparr>queue := [], receivers := (receivers s)[t := Returned v]\<rparr>)"
  using assms by (simp add: send_singleton receive_singleton)

text \<open>A ready thread that finds a value returns it.\<close>

lemma ready_returns:
  assumes "t < length (receivers s)" and "receivers s ! t = Ready" and "queue s = [v]"
  shows "sys_step (Step t) s =
           Some (s\<lparr>queue := [], receivers := (receivers s)[t := Returned v]\<rparr>)"
  using assms by (simp add: receive_singleton)

lemma single_receiver:
  assumes "length (receivers s) = Suc 0"
  shows "receivers s = [receivers s ! 0]"
  using assms by (cases "receivers s") simp_all

section \<open>The claim about blocking and waking\<close>

text \<open>
  C9. In every state the system of receivers reaches from its start:
  \<^item> while nothing has been sent the container is empty and no \<open>receive\<close> has returned;
    a thread that is inside \<open>receive\<close> on an empty container is still inside it, waiting
    or ready, after any further steps without a send, spurious wake-ups included;
  \<^item> a thread that evaluates the predicate on an empty container goes back to waiting,
    whatever woke it, and one that finds a value returns it and empties the container;
  \<^item> a value in the container is the value of the last send, and while a thread waits
    it means that some thread is ready (no wake-up was missed), so that some thread
    inside \<open>receive\<close> can take the step that returns it; a send made while a thread waits
    leaves its value in the container and a thread ready;
  \<^item> the blocked receive returns the sent value: when a send wakes a waiting thread and
    that thread takes its step, the run ends with that thread having returned the
    value sent and the container empty; and any ready thread that takes its step while
    the container holds a value returns the value of the last send;
  \<^item> with a single receiver the thread a send wakes is the blocked receiver itself: a send
    cannot pass it by, it is ready whenever it is inside \<open>receive\<close> and the container
    holds a value, and so its next step returns the last value sent.
  With several blocked receivers the value goes to the one that takes it; the others
  find the container empty and wait for a later send.
\<close>

theorem receive_blocks_until_send:
  assumes "sys_run es (sys_init n) = Some s"
  shows
    "(list_all (\<lambda>e. \<not> is_send e) es \<longrightarrow>
        queue s = [] \<and> list_all (\<lambda>r. \<not> is_returned r) (receivers s)) \<and>
     (\<forall>t s'. sys_step (Step t) s = Some s' \<longrightarrow>
        (if queue s = [] then receivers s' ! t = Waiting \<and> queue s' = []
         else receivers s' ! t = Returned (last (queue s)) \<and> queue s' = [])) \<and>
     (queue s \<noteq> [] \<longrightarrow> queue s = [last (queue s)] \<and> last_sent es = Some (last (queue s))) \<and>
     (queue s \<noteq> [] \<and> Waiting \<in> set (receivers s) \<longrightarrow> Ready \<in> set (receivers s)) \<and>
     (queue s \<noteq> [] \<and> (Ready \<in> set (receivers s) \<or> Waiting \<in> set (receivers s)) \<longrightarrow>
        (\<exists>t s'. sys_step (Step t) s = Some s' \<and> receivers s' ! t = Returned (last (queue s)))) \<and>
     (Waiting \<in> set (receivers s) \<longrightarrow>
        (\<forall>v w s'. sys_step (SendNotify v w) s = Some s' \<longrightarrow>
           queue s' = [v] \<and> Ready \<in> set (receivers s'))) \<and>
     (\<forall>t es' s'. t < n \<and> (receivers s ! t = Waiting \<or> receivers s ! t = Ready) \<and>
          queue s = [] \<and> list_all (\<lambda>e. \<not> is_send e) es' \<and> sys_run es' s = Some s' \<longrightarrow>
        queue s' = [] \<and> (receivers s' ! t = Waiting \<or> receivers s' ! t = Ready)) \<and>
     (\<forall>t v. t < n \<and> receivers s ! t = Waiting \<longrightarrow>
        sys_run (es @ [SendNotify v (Some t), Step t]) (sys_init n) =
          Some (s\<lparr>queue := [], receivers := (receivers s)[t := Returned v]\<rparr>)) \<and>
     (\<forall>t. t < n \<and> receivers s ! t = Ready \<and> queue s \<noteq> [] \<longrightarrow>
        last_sent es = Some (last (queue s)) \<and>
        sys_run (es @ [Step t]) (sys_init n) =
          Some (s\<lparr>queue := [], receivers := (receivers s)[t := Returned (last (queue s))]\<rparr>)) \<and>
     (n = Suc 0 \<and> receivers s ! 0 = Waiting \<longrightarrow>
        queue s = [] \<and>
        (\<forall>v w s'. sys_step (SendNotify v w) s = Some s' \<longrightarrow>
           w = Some 0 \<and> queue s' = [v] \<and> receivers s' = [Ready])) \<and>
     (n = Suc 0 \<and> queue s \<noteq> [] \<and> receivers s ! 0 \<noteq> Idle \<and> \<not> is_returned (receivers s ! 0) \<longrightarrow>
        receivers s = [Ready])"
proof -
  from assms have inv: "sys_inv es s" by (rule sys_inv_run)
  from sys_run_length [OF assms] have len: "length (receivers s) = n"
    by (simp add: sys_init_def)
  have 1: "list_all (\<lambda>e. \<not> is_send e) es \<longrightarrow>
        queue s = [] \<and> list_all (\<lambda>r. \<not> is_returned r) (receivers s)"
    using inv by (simp add: sys_inv_def)
  have 3: "queue s \<noteq> [] \<longrightarrow> queue s = [last (queue s)] \<and> last_sent es = Some (last (queue s))"
    using inv by (auto simp: sys_inv_def)
  have 4: "queue s \<noteq> [] \<and> Waiting \<in> set (receivers s) \<longrightarrow> Ready \<in> set (receivers s)"
    using inv by (simp add: sys_inv_def)
  have 2: "if queue s = [] then receivers s' ! t = Waiting \<and> queue s' = []
         else receivers s' ! t = Returned (last (queue s)) \<and> queue s' = []"
    if st: "sys_step (Step t) s = Some s'" for t s'
  proof (cases "queue s = []")
    case True
    with st show ?thesis by (auto simp: receive_Nil split: if_splits)
  next
    case False
    with 3 obtain v where "queue s = [v]" by blast
    with st show ?thesis by (auto simp: receive_singleton split: if_splits)
  qed
  have 5: "\<exists>t s'. sys_step (Step t) s = Some s' \<and> receivers s' ! t = Returned (last (queue s))"
    if "queue s \<noteq> [] \<and> (Ready \<in> set (receivers s) \<or> Waiting \<in> set (receivers s))"
  proof -
    from that 4 have "Ready \<in> set (receivers s)" "queue s \<noteq> []" by blast+
    from ready_can_step [OF this] show ?thesis by blast
  qed
  have 6: "queue s' = [v] \<and> Ready \<in> set (receivers s')"
    if wt: "Waiting \<in> set (receivers s)" and st: "sys_step (SendNotify v w) s = Some s'"
    for v w s'
  proof (cases w)
    case None
    with wt st show ?thesis by simp
  next
    case (Some t)
    with st have "t < length (receivers s)"
      "s' = s\<lparr>queue := [v], receivers := (receivers s)[t := Ready]\<rparr>"
      by (simp_all add: send_singleton split: if_splits)
    then show ?thesis by (simp add: set_update_memI)
  qed
  have 7: "queue s' = [] \<and> (receivers s' ! t = Waiting \<or> receivers s' ! t = Ready)"
    if "t < n \<and> (receivers s ! t = Waiting \<or> receivers s ! t = Ready) \<and>
          queue s = [] \<and> list_all (\<lambda>e. \<not> is_send e) es' \<and> sys_run es' s = Some s'"
    for t es' s'
  proof -
    from that len have "sys_run es' s = Some s'" "list_all (\<lambda>e. \<not> is_send e) es'"
      "queue s = []" "t < length (receivers s)"
      "receivers s ! t = Waiting \<or> receivers s ! t = Ready"
      by simp_all
    then show ?thesis by (rule blocked_run)
  qed
  have 8: "sys_run (es @ [SendNotify v (Some t), Step t]) (sys_init n) =
          Some (s\<lparr>queue := [], receivers := (receivers s)[t := Returned v]\<rparr>)"
    if "t < n \<and> receivers s ! t = Waiting" for t v
  proof -
    from that len have "t < length (receivers s)" "receivers s ! t = Waiting" by simp_all
    from woken_returns [OF this, of v] assms show ?thesis
      by (simp only: sys_run_append option.case)
  qed
  have 9: "last_sent es = Some (last (queue s)) \<and>
        sys_run (es @ [Step t]) (sys_init n) =
          Some (s\<lparr>queue := [], receivers := (receivers s)[t := Returned (last (queue s))]\<rparr>)"
    if "t < n \<and> receivers s ! t = Ready \<and> queue s \<noteq> []" for t
  proof -
    from that len have t: "t < length (receivers s)" "receivers s ! t = Ready" by simp_all
    from that 3 have q: "queue s = [last (queue s)]" "last_sent es = Some (last (queue s))"
      by simp_all
    from ready_returns [OF t q(1)]
    have "sys_run [Step t] s =
        Some (s\<lparr>queue := [], receivers := (receivers s)[t := Returned (last (queue s))]\<rparr>)"
      by simp
    with assms q(2) show ?thesis by (simp only: sys_run_append option.case simp_thms)
  qed
  have 10: "queue s = [] \<and>
        (\<forall>v w s'. sys_step (SendNotify v w) s = Some s' \<longrightarrow>
           w = Some 0 \<and> queue s' = [v] \<and> receivers s' = [Ready])"
    if h: "n = Suc 0 \<and> receivers s ! 0 = Waiting"
  proof -
    from h len have "length (receivers s) = Suc 0" by simp
    then have "receivers s = [receivers s ! 0]" by (rule single_receiver)
    with h have rs: "receivers s = [Waiting]" by simp
    with 4 have q: "queue s = []" by auto
    have "w = Some 0 \<and> queue s' = [v] \<and> receivers s' = [Ready]"
      if st: "sys_step (SendNotify v w) s = Some s'" for v w s'
    proof (cases w)
      case None
      with st rs show ?thesis by simp
    next
      case (Some t)
      with st rs show ?thesis by (auto simp: send_singleton split: if_splits)
    qed
    with q show ?thesis by blast
  qed
  have 11: "receivers s = [Ready]"
    if h: "n = Suc 0 \<and> queue s \<noteq> [] \<and> receivers s ! 0 \<noteq> Idle \<and> \<not> is_returned (receivers s ! 0)"
  proof -
    from h len have "length (receivers s) = Suc 0" by simp
    then have rs: "receivers s = [receivers s ! 0]" by (rule single_receiver)
    show ?thesis
    proof (cases "receivers s ! 0")
      case Idle
      with h show ?thesis by simp
    next
      case Ready
      with rs show ?thesis by simp
    next
      case Waiting
      with rs have "receivers s = [Waiting]" by simp
      with 4 h show ?thesis by auto
    next
      case (Returned m)
      with h show ?thesis by simp
    qed
  qed
  from 1 2 3 4 5 6 7 8 9 10 11 show ?thesis by blast
qed

theorem receive_blocks_until_send_witness:
  "sys_run [Call 0, Step 0, Call 1, Step 1, Spurious 1, Step 1] (sys_init (Suc (Suc 0))) =
     Some \<lparr>queue = ([] :: TrafficLightPhase list), receivers = [Waiting, Waiting]\<rparr> \<and>
   list_all (\<lambda>e. \<not> is_send e)
     [Call 0, Step 0, Call 1, Step 1, Spurious 1, Step 1 :: TrafficLightPhase event] \<and>
   sys_run [Spurious 1, Step 1, Spurious 0]
       \<lparr>queue = ([] :: TrafficLightPhase list), receivers = [Waiting, Waiting]\<rparr> =
     Some \<lparr>queue = [], receivers = [Ready, Waiting]\<rparr> \<and>
   sys_step (SendNotify green None)
     \<lparr>queue = ([] :: TrafficLightPhase list), receivers = [Waiting, Waiting]\<rparr> = None \<and>
   sys_run ([Call 0, Step 0, Call 1, Step 1, Spurious 1, Step 1] @
            [SendNotify green (Some 1), Step 1]) (sys_init (Suc (Suc 0))) =
     Some \<lparr>queue = [], receivers = [Waiting, Returned green]\<rparr> \<and>
   sys_run [Call 0, Step 0, Call 1, Step 1, Spurious 1, Step 1, SendNotify green (Some 0)]
       (sys_init (Suc (Suc 0))) =
     Some \<lparr>queue = [green], receivers = [Ready, Waiting]\<rparr> \<and>
   last_sent [Call 0, Step 0, Call 1, Step 1, Spurious 1, Step 1, SendNotify green (Some 0)] =
     Some green \<and>
   Waiting \<in> set (receivers \<lparr>queue = [green], receivers = [Ready, Waiting]\<rparr>) \<and>
   Ready \<in> set (receivers \<lparr>queue = [green], receivers = [Ready, Waiting]\<rparr>) \<and>
   sys_step (Step 0) \<lparr>queue = [green], receivers = [Ready, Waiting]\<rparr> =
     Some \<lparr>queue = [], receivers = [Returned green, Waiting]\<rparr> \<and>
   sys_run [Call 0, Step 0] (sys_init (Suc 0)) =
     Some \<lparr>queue = ([] :: TrafficLightPhase list), receivers = [Waiting]\<rparr> \<and>
   sys_step (SendNotify red None)
     \<lparr>queue = ([] :: TrafficLightPhase list), receivers = [Waiting]\<rparr> = None \<and>
   sys_run [Call 0, Step 0, SendNotify red (Some 0), SendNotify green None] (sys_init (Suc 0)) =
     Some \<lparr>queue = [green], receivers = [Ready]\<rparr> \<and>
   sys_run ([Call 0, Step 0, SendNotify red (Some 0), SendNotify green None] @ [Step 0])
       (sys_init (Suc 0)) =
     Some \<lparr>queue = [], receivers = [Returned green]\<rparr>"
proof -
  have r1: "sys_run [Call 0, Step 0, Call 1, Step 1, Spurious 1, Step 1] (sys_init (Suc (Suc 0))) =
     Some \<lparr>queue = ([] :: TrafficLightPhase list), receivers = [Waiting, Waiting]\<rparr>"
    by (simp add: sys_init_def receive_Nil)
  have r2: "sys_run [Call 0, Step 0, Call 1, Step 1, Spurious 1, Step 1, SendNotify green (Some 0)]
       (sys_init (Suc (Suc 0))) = Some \<lparr>queue = [green], receivers = [Ready, Waiting]\<rparr>"
    by (simp add: sys_init_def receive_Nil send_singleton)
  have r3: "sys_run [Call 0, Step 0] (sys_init (Suc 0)) =
     Some \<lparr>queue = ([] :: TrafficLightPhase list), receivers = [Waiting]\<rparr>"
    by (simp add: sys_init_def receive_Nil)
  have r4: "sys_run [Call 0, Step 0, SendNotify red (Some 0), SendNotify green None]
       (sys_init (Suc 0)) = Some \<lparr>queue = [green], receivers = [Ready]\<rparr>"
    by (simp add: sys_init_def receive_Nil send_singleton)
  have e1: "sys_run [Spurious 1, Step 1, Spurious 0]
       \<lparr>queue = ([] :: TrafficLightPhase list), receivers = [Waiting, Waiting]\<rparr> =
     Some \<lparr>queue = [], receivers = [Ready, Waiting]\<rparr>"
    by (simp add: receive_Nil)
  have e2: "sys_step (SendNotify green None)
       \<lparr>queue = ([] :: TrafficLightPhase list), receivers = [Waiting, Waiting]\<rparr> = None"
    by simp
  have e3: "sys_step (Step 0) \<lparr>queue = [green], receivers = [Ready, Waiting]\<rparr> =
     Some \<lparr>queue = [], receivers = [Returned green, Waiting]\<rparr>"
    by (simp add: receive_singleton)
  have e4: "sys_step (SendNotify red None)
       \<lparr>queue = ([] :: TrafficLightPhase list), receivers = [Waiting]\<rparr> = None"
    by simp
  note woken = receive_blocks_until_send [OF r1, THEN conjunct2, THEN conjunct2, THEN conjunct2,
      THEN conjunct2, THEN conjunct2, THEN conjunct2, THEN conjunct2, THEN conjunct1,
      rule_format, of "Suc 0" green]
  then have w1: "sys_run ([Call 0, Step 0, Call 1, Step 1, Spurious 1, Step 1] @
            [SendNotify green (Some 1), Step 1]) (sys_init (Suc (Suc 0))) =
     Some \<lparr>queue = [], receivers = [Waiting, Returned green]\<rparr>"
    by simp
  note held = receive_blocks_until_send [OF r2, THEN conjunct2, THEN conjunct2, THEN conjunct1]
  then have w2: "last_sent [Call 0, Step 0, Call 1, Step 1, Spurious 1, Step 1,
      SendNotify green (Some 0)] = Some green"
    by simp
  note ready = receive_blocks_until_send [OF r2, THEN conjunct2, THEN conjunct2, THEN conjunct2,
      THEN conjunct1]
  then have w3: "Ready \<in> set (receivers \<lparr>queue = [green], receivers = [Ready, Waiting]\<rparr>)"
    by simp
  note single = receive_blocks_until_send [OF r4, THEN conjunct2, THEN conjunct2, THEN conjunct2,
      THEN conjunct2, THEN conjunct2, THEN conjunct2, THEN conjunct2, THEN conjunct2,
      THEN conjunct1, rule_format, of 0]
  then have w4: "sys_run ([Call 0, Step 0, SendNotify red (Some 0), SendNotify green None] @
       [Step 0]) (sys_init (Suc 0)) = Some \<lparr>queue = [], receivers = [Returned green]\<rparr>"
    by simp
  from r1 r2 r3 r4 e1 e2 e3 e4 w1 w2 w3 w4 show ?thesis by simp
qed

end
